theory Spec2Isabelle
  imports Main "HOL-Library.Word"
begin

section \<open>The file logger of the Setup bootstrapper (Logger.cpp)\<close>

text \<open>
  \<^verbatim>\<open>CLogger\<close> has two static functions. \<^verbatim>\<open>getCurrentDateTime\<close> renders the
  local time with \<^verbatim>\<open>strftime\<close> into a buffer of 80 characters; \<^verbatim>\<open>Log\<close> narrows
  the wide message, opens the file for appending, inserts the timestamp, the level and
  the message into the stream, and closes it. The functions of the C and C++ libraries
  they call are modelled below as far as the program uses them.
\<close>

subsection \<open>Characters and C strings\<close>

text \<open>
  \<^verbatim>\<open>char\<close> is a byte; \<^verbatim>\<open>wchar_t\<close> has 16 bits on the platform of this program.
  A pointer to a C string is modelled by the characters stored from it on; the string
  it denotes ends before the first terminator.
\<close>

type_synonym wchar_t = "16 word"
type_synonym wstring = "wchar_t list"

definition NUL :: char where
  "NUL = CHR 0x00"

definition TAB :: char where
  "TAB = CHR 0x09"

definition NL :: char where
  "NL = CHR 0x0A"

definition c_str :: "string \<Rightarrow> string" where
  "c_str buf = takeWhile (\<lambda>c. c \<noteq> NUL) buf"

definition wc_str :: "wstring \<Rightarrow> wstring" where
  "wc_str buf = takeWhile (\<lambda>c. c \<noteq> 0) buf"

text \<open>
  \<^verbatim>\<open>std::string strLogMsg(ws.begin(), ws.end())\<close> converts every \<^verbatim>\<open>wchar_t\<close> of the
  range to \<^verbatim>\<open>char\<close>: the low eight bits remain.
\<close>

definition narrow :: "wchar_t \<Rightarrow> char" where
  "narrow c = char_of (unat c)"

subsection \<open>Broken-down time and \<^verbatim>\<open>strftime\<close>\<close>

text \<open>
  \<^verbatim>\<open>struct tm\<close>, as \<^verbatim>\<open>localtime\<close> fills it; its members are of type \<^verbatim>\<open>int\<close>, 32 bits read as signed.
  The clock is outside the program: each call takes the broken-down time that
  \<^verbatim>\<open>*localtime(&now)\<close> yielded.
\<close>

type_synonym c_int = "32 word"

record tm =
  tm_sec :: c_int
  tm_min :: c_int
  tm_hour :: c_int
  tm_mday :: c_int
  tm_mon :: c_int
  tm_year :: c_int
  tm_wday :: c_int
  tm_yday :: c_int
  tm_isdst :: c_int

definition digit :: "nat \<Rightarrow> char" where
  "digit d = char_of (48 + d)"

fun dec :: "nat \<Rightarrow> string" where
  "dec n = (if n < 10 then [digit n] else dec (n div 10) @ [digit (n mod 10)])"

declare dec.simps [simp del]

definition dec_int :: "int \<Rightarrow> string" where
  "dec_int i = (if i < 0 then CHR ''-'' # dec (nat (- i)) else dec (nat i))"

text \<open>A decimal number of at least two digits, as the conversions \<^verbatim>\<open>%d %m %H %M %S\<close> print it.\<close>

definition dec2 :: "int \<Rightarrow> string" where
  "dec2 i = (if 0 \<le> i \<and> i < 10 then CHR ''0'' # dec_int i else dec_int i)"

text \<open>
  The conversion specifiers in the "C" locale, the locale of a program that does not call
  \<^verbatim>\<open>setlocale\<close>: there \<^verbatim>\<open>%X\<close> is \<^verbatim>\<open>%H:%M:%S\<close>. \<^verbatim>\<open>%Y\<close> is the year as a decimal
  number, \<^verbatim>\<open>tm_year + 1900\<close>; \<^verbatim>\<open>%m\<close> is \<^verbatim>\<open>tm_mon + 1\<close>. The sums are those of the
  numbers, not of the machine type.
\<close>

definition conversion :: "char \<Rightarrow> tm \<Rightarrow> string" where
  "conversion c t =
     (if c = CHR ''d'' then dec2 (sint (tm_mday t))
      else if c = CHR ''m'' then dec2 (sint (tm_mon t) + 1)
      else if c = CHR ''Y'' then dec_int (sint (tm_year t) + 1900)
      else if c = CHR ''H'' then dec2 (sint (tm_hour t))
      else if c = CHR ''M'' then dec2 (sint (tm_min t))
      else if c = CHR ''S'' then dec2 (sint (tm_sec t))
      else if c = CHR ''X'' then
        dec2 (sint (tm_hour t)) @ '':'' @ dec2 (sint (tm_min t)) @ '':'' @ dec2 (sint (tm_sec t))
      else if c = CHR ''%'' then ''%''
      else [])"

fun expand :: "string \<Rightarrow> tm \<Rightarrow> string" where
  "expand [] t = []"
| "expand [c] t = [c]"
| "expand (c # d # fs) t =
     (if c = CHR ''%'' then conversion d t @ expand fs t else c # expand (d # fs) t)"

text \<open>
  \<^verbatim>\<open>strftime(buf, maxsize, fmt, &t)\<close>: when the result and its terminator fit into
  \<^verbatim>\<open>maxsize\<close> characters they are stored and the number of characters before the
  terminator is returned (\<open>Some\<close>, with the characters stored); otherwise the function
  returns 0 and the contents of the array are indeterminate (\<open>None\<close>).
\<close>

definition strftime :: "nat \<Rightarrow> string \<Rightarrow> tm \<Rightarrow> (nat \<times> string) option" where
  "strftime maxsize fmt t =
     (let s = expand fmt t
      in if length s + 1 \<le> maxsize then Some (length s, s @ [NUL]) else None)"

text \<open>
  \<^verbatim>\<open>getCurrentDateTime\<close>. \<^verbatim>\<open>std::string(buf)\<close> reads \<^verbatim>\<open>buf\<close> up to its first
  terminator; on an array that \<^verbatim>\<open>strftime\<close> left indeterminate this is undefined,
  and the model returns \<open>None\<close>.
\<close>

definition getCurrentDateTime :: "tm \<Rightarrow> string option" where
  "getCurrentDateTime tstruct =
     (case strftime 80 ''[%d-%m-%Y %X]'' tstruct of
        None \<Rightarrow> None
      | Some (n, buf) \<Rightarrow> Some (c_str buf))"

subsection \<open>The file system\<close>

text \<open>
  Directories, regular files with their characters, the paths the process may not open,
  and the number of characters the device still stores: a write of more than \<open>avail\<close>
  characters fails after the first \<open>avail\<close> of them. A directory is named with its
  trailing separator; the empty name is the current directory.

  A file holds the characters of the text stream, as every reader in text mode gets them
  back; how the host stores the end of a line lies below this model.
\<close>

record filesys =
  dirs :: "wstring set"
  files :: "wstring \<rightharpoonup> string"
  denied :: "wstring set"
  avail :: nat

datatype openmode_flag = ios_app | ios_ate | ios_binary | ios_in | ios_out | ios_trunc

definition dirname :: "wstring \<Rightarrow> wstring" where
  "dirname p = rev (dropWhile (\<lambda>c. c \<noteq> 0x5C \<and> c \<noteq> 0x2F) (rev p))"

definition can_open :: "filesys \<Rightarrow> wstring \<Rightarrow> bool" where
  "can_open fs p = (dirname p \<in> dirs fs \<and> p \<notin> dirs fs \<and> p \<notin> denied fs)"

definition content :: "filesys \<Rightarrow> wstring \<Rightarrow> string" where
  "content fs p = (case files fs p of None \<Rightarrow> [] | Some cs \<Rightarrow> cs)"

text \<open>
  \<^verbatim>\<open>basic_filebuf::open\<close> for writing: a missing file is created empty; an existing
  one keeps its characters when \<^verbatim>\<open>app\<close> is among the flags and is emptied otherwise.
\<close>

definition filebuf_open :: "filesys \<Rightarrow> wstring \<Rightarrow> openmode_flag set \<Rightarrow> filesys option" where
  "filebuf_open fs p mode =
     (if can_open fs p \<and> ios_out \<in> mode then
        Some (if ios_app \<in> mode \<and> files fs p \<noteq> None then fs
              else fs\<lparr>files := (files fs)(p \<mapsto> [])\<rparr>)
      else None)"

text \<open>Writing places the characters after those the file holds.\<close>

definition write_chars :: "filesys \<Rightarrow> wstring \<Rightarrow> string \<Rightarrow> bool \<times> filesys" where
  "write_chars fs p cs =
     (length cs \<le> avail fs,
      fs\<lparr>files := (files fs)(p \<mapsto> content fs p @ take (avail fs) cs),
         avail := avail fs - length cs\<rparr>)"

subsection \<open>\<^verbatim>\<open>std::ofstream\<close>\<close>

text \<open>
  A call either returns or is left by an exception or by undefined behaviour. The stream
  has the file it is open on, its error state, and the mask of the states that throw
  \<^verbatim>\<open>ios_base::failure\<close>; \<^verbatim>\<open>goodbit\<close> is the empty set of flags.
\<close>

datatype abort = ios_failure | undefined_behaviour

type_synonym 'a outcome = "abort + 'a"

datatype iostate_flag = badbit | failbit | eofbit

record ofstream =
  handle :: "wstring option"
  rdstate :: "iostate_flag set"
  exceptions :: "iostate_flag set"

type_synonym world = "ofstream \<times> filesys"

definition and_then :: "'a outcome \<Rightarrow> ('a \<Rightarrow> 'b outcome) \<Rightarrow> 'b outcome" where
  "and_then r f = (case r of Inl e \<Rightarrow> Inl e | Inr x \<Rightarrow> f x)"

definition setstate :: "iostate_flag set \<Rightarrow> world \<Rightarrow> world outcome" where
  "setstate flags w =
     (let ofs = fst w; st = rdstate ofs \<union> flags
      in if st \<inter> exceptions ofs \<noteq> {} then Inl ios_failure
         else Inr (ofs\<lparr>rdstate := st\<rparr>, snd w))"

text \<open>
  The constructor \<^verbatim>\<open>std::ofstream ofs(path, mode)\<close>: error state and exception mask
  are \<^verbatim>\<open>goodbit\<close>, the file is opened with \<^verbatim>\<open>mode | out\<close>, and \<^verbatim>\<open>failbit\<close> is set
  when that fails.
\<close>

definition ofstream_ctor :: "wstring \<Rightarrow> openmode_flag set \<Rightarrow> filesys \<Rightarrow> world outcome" where
  "ofstream_ctor p mode fs =
     (let ofs = \<lparr>handle = None, rdstate = {}, exceptions = {}\<rparr>
      in case filebuf_open fs p (mode \<union> {ios_out}) of
           None \<Rightarrow> setstate {failbit} (ofs, fs)
         | Some fs' \<Rightarrow> Inr (ofs\<lparr>handle := Some p\<rparr>, fs'))"

text \<open>
  \<^verbatim>\<open>ofs << s\<close> for a string or a character: on a stream that is not good the insertion
  sets \<^verbatim>\<open>failbit\<close> and writes nothing; otherwise the characters go to the file, and
  \<^verbatim>\<open>badbit\<close> is set when the device does not take all of them. The stream buffer is left
  out: the characters reach the file at the insertion, not at the \<^verbatim>\<open>close\<close>, in the
  same order.
\<close>

definition ostream_insert :: "string \<Rightarrow> world \<Rightarrow> world outcome" where
  "ostream_insert cs w =
     (let ofs = fst w; fs = snd w
      in if rdstate ofs \<noteq> {} then setstate {failbit} w
         else case handle ofs of
                None \<Rightarrow> setstate {badbit} w
              | Some p \<Rightarrow>
                  (case write_chars fs p cs of
                     (ok, fs') \<Rightarrow> if ok then Inr (ofs, fs') else setstate {badbit} (ofs, fs')))"

definition close :: "world \<Rightarrow> world outcome" where
  "close w =
     (case handle (fst w) of
        None \<Rightarrow> setstate {failbit} w
      | Some p \<Rightarrow> Inr ((fst w)\<lparr>handle := None\<rparr>, snd w))"

subsection \<open>\<^verbatim>\<open>CLogger::Log\<close>\<close>

text \<open>
  \<open>Log_run\<close> is the body of \<^verbatim>\<open>Log\<close> up to the \<^verbatim>\<open>close\<close>, with the stream as it is
  then; \<open>Log\<close> is the call as its caller has it: the function is \<^verbatim>\<open>void\<close>, the stream is
  a local object, and what remains is the file system.
\<close>

definition Log_run :: "tm \<Rightarrow> filesys \<Rightarrow> wstring \<Rightarrow> string \<Rightarrow> wstring \<Rightarrow> world outcome" where
  "Log_run tstruct fs path level logMsg =
     (let ws = wc_str logMsg;
          strLogMsg = map narrow ws
      in case getCurrentDateTime tstruct of
           None \<Rightarrow> Inl undefined_behaviour
         | Some now \<Rightarrow>
             foldl and_then (ofstream_ctor (wc_str path) {ios_out, ios_app} fs)
               [ostream_insert now, ostream_insert [TAB], ostream_insert (c_str level),
                ostream_insert [TAB], ostream_insert strLogMsg, ostream_insert [NL],
                close])"

definition Log :: "tm \<Rightarrow> filesys \<Rightarrow> wstring \<Rightarrow> string \<Rightarrow> wstring \<Rightarrow> (unit \<times> filesys) outcome" where
  "Log tstruct fs path level logMsg =
     and_then (Log_run tstruct fs path level logMsg) (\<lambda>w. Inr ((), snd w))"

text \<open>The call succeeded when it returned and the stream was good to the end.\<close>

definition succeeded :: "world outcome \<Rightarrow> bool" where
  "succeeded r = (case r of Inl e \<Rightarrow> False | Inr w \<Rightarrow> rdstate (fst w) = {})"

text \<open>A \<^verbatim>\<open>void\<close> function can tell its caller of a failure only by not returning.\<close>

definition reports_failure :: "(unit \<times> filesys) outcome \<Rightarrow> bool" where
  "reports_failure r = (case r of Inl e \<Rightarrow> True | Inr v \<Rightarrow> False)"

subsection \<open>The properties in the program's terms\<close>

text \<open>The characters that the format of \<^verbatim>\<open>getCurrentDateTime\<close> yields for a time.\<close>

definition timestamp :: "tm \<Rightarrow> string" where
  "timestamp t = expand ''[%d-%m-%Y %X]'' t"

text \<open>
  The line of the file format: timestamp, tab, level, tab, message, newline. The entry of
  a call is this line for the time, the level and the narrowed message of the call.
\<close>

definition log_line :: "string \<Rightarrow> string \<Rightarrow> string \<Rightarrow> string" where
  "log_line stamp level message = stamp @ [TAB] @ level @ [TAB] @ message @ [NL]"

definition entry :: "tm \<Rightarrow> string \<Rightarrow> wstring \<Rightarrow> string" where
  "entry t level logMsg = log_line (timestamp t) (c_str level) (map narrow (wc_str logMsg))"

text \<open>
  The pattern \<^verbatim>\<open>[\d{2}-\d{2}-\d{4} \d{2}:\d{2}:\d{2}]\<close>: a list of items, each a decimal
  digit or one given character.
\<close>

definition is_digit :: "char \<Rightarrow> bool" where
  "is_digit c = (48 \<le> (of_char c :: nat) \<and> (of_char c :: nat) \<le> 57)"

datatype pat = Digit | Lit char

fun matches :: "pat list \<Rightarrow> string \<Rightarrow> bool" where
  "matches [] cs = (cs = [])"
| "matches (p # ps) [] = False"
| "matches (Digit # ps) (c # cs) = (is_digit c \<and> matches ps cs)"
| "matches (Lit x # ps) (c # cs) = (c = x \<and> matches ps cs)"

definition stamp_pattern :: "pat list" where
  "stamp_pattern =
     [Lit CHR ''['', Digit, Digit, Lit CHR ''-'', Digit, Digit, Lit CHR ''-'',
      Digit, Digit, Digit, Digit, Lit CHR '' '',
      Digit, Digit, Lit CHR '':'', Digit, Digit, Lit CHR '':'', Digit, Digit, Lit CHR '']'']"

text \<open>A number in two and in four decimal digits, padded with zeros.\<close>

definition pad2 :: "nat \<Rightarrow> string" where
  "pad2 n = [digit (n div 10 mod 10), digit (n mod 10)]"

definition pad4 :: "nat \<Rightarrow> string" where
  "pad4 n = [digit (n div 1000 mod 10), digit (n div 100 mod 10),
             digit (n div 10 mod 10), digit (n mod 10)]"

text \<open>
  The members of a broken-down time in their ranges (seconds up to 60 for a leap second),
  in a calendar year of four digits. These are the times that \<^verbatim>\<open>localtime\<close> yields: the
  run-time library of the platform converts no time before 1970 or after the year 3000 and
  returns a null pointer for it.
\<close>

definition calendar_time :: "tm \<Rightarrow> bool" where
  "calendar_time t =
     (0 \<le> sint (tm_sec t) \<and> sint (tm_sec t) \<le> 60 \<and>
      0 \<le> sint (tm_min t) \<and> sint (tm_min t) \<le> 59 \<and>
      0 \<le> sint (tm_hour t) \<and> sint (tm_hour t) \<le> 23 \<and>
      1 \<le> sint (tm_mday t) \<and> sint (tm_mday t) \<le> 31 \<and>
      0 \<le> sint (tm_mon t) \<and> sint (tm_mon t) \<le> 11 \<and>
      1000 \<le> sint (tm_year t) + 1900 \<and> sint (tm_year t) + 1900 \<le> 9999)"

text \<open>The characters of a timestamp, whatever the time: digits, and the six of the format
  and of a negative number.\<close>

definition stamp_char :: "char \<Rightarrow> bool" where
  "stamp_char c = (is_digit c \<or> c \<in> set ''[-: ]'')"

text \<open>
  Splitting at a separator, as a reader of the file does: the pieces between the
  occurrences of the separator. The lines of a file are the pieces that a newline ends.
\<close>

fun split_on :: "'a \<Rightarrow> 'a list \<Rightarrow> 'a list list" where
  "split_on d [] = [[]]"
| "split_on d (c # cs) =
     (if c = d then [] # split_on d cs
      else (let r = split_on d cs in (c # hd r) # tl r))"

definition lines_of :: "string \<Rightarrow> string list" where
  "lines_of cs = butlast (split_on NL cs)"

text \<open>
  Calls one after the other on the same path, each with the time of its clock reading; the
  result is the file system after the last call when every call succeeded.
\<close>

fun Log_seq :: "filesys \<Rightarrow> wstring \<Rightarrow> (tm \<times> string \<times> wstring) list \<Rightarrow> filesys option" where
  "Log_seq fs path [] = Some fs"
| "Log_seq fs path ((t, level, logMsg) # calls) =
     (case Log_run t fs path level logMsg of
        Inl e \<Rightarrow> None
      | Inr w \<Rightarrow> if rdstate (fst w) = {} then Log_seq (snd w) path calls else None)"

subsection \<open>Concrete inputs\<close>

text \<open>A wide string literal, and a time, a file system and paths to run the program on.\<close>

definition wide :: "string \<Rightarrow> wstring" where
  "wide s = map (\<lambda>c. of_nat (of_char c)) s"

definition demo_time :: tm where
  "demo_time =
     \<lparr>tm_sec = 31, tm_min = 2, tm_hour = 14, tm_mday = 5, tm_mon = 2, tm_year = 124,
      tm_wday = 2, tm_yday = 64, tm_isdst = 0\<rparr>"

definition demo_fs :: filesys where
  "demo_fs =
     \<lparr>dirs = {[], wide ''logs/''},
      files = [wide ''logs/old.log'' \<mapsto> ''first'' @ [NL]],
      denied = {},
      avail = 1000\<rparr>"

text \<open>The same file system with room for 25 characters more.\<close>

definition full_fs :: filesys where
  "full_fs = demo_fs\<lparr>avail := 25\<rparr>"

text \<open>The same file system with room for 40 characters more.\<close>

definition tight_fs :: filesys where
  "tight_fs = demo_fs\<lparr>avail := 40\<rparr>"

section \<open>Properties\<close>

subsection \<open>The stream\<close>

lemma setstate_quiet:
  "exceptions (fst w) = {} \<Longrightarrow>
   setstate flags w = Inr ((fst w)\<lparr>rdstate := rdstate (fst w) \<union> flags\<rparr>, snd w)"
  by (simp add: setstate_def Let_def)

lemma and_then_Inl [simp]: "and_then (Inl e) f = Inl e"
  by (simp add: and_then_def)

lemma and_then_Inr [simp]: "and_then (Inr x) f = f x"
  by (simp add: and_then_def)

lemma inserts_bad:
  "rdstate ofs \<noteq> {} \<Longrightarrow> exceptions ofs = {} \<Longrightarrow>
   \<exists>ofs'. foldl and_then (Inr (ofs, fs)) (map ostream_insert css) = Inr (ofs', fs)
      \<and> rdstate ofs' \<noteq> {} \<and> exceptions ofs' = {} \<and> handle ofs' = handle ofs"
proof (induction css arbitrary: ofs)
  case Nil
  then show ?case by simp
next
  case (Cons cs css)
  let ?ofs = "ofs\<lparr>rdstate := rdstate ofs \<union> {failbit}\<rparr>"
  have step: "ostream_insert cs (ofs, fs) = Inr (?ofs, fs)"
    using Cons.prems by (simp add: ostream_insert_def setstate_quiet)
  have "rdstate ?ofs \<noteq> {}" "exceptions ?ofs = {}" using Cons.prems by simp_all
  from Cons.IH [OF this] show ?case by (simp add: step)
qed

lemma inserts_good:
  "rdstate ofs = {} \<Longrightarrow> exceptions ofs = {} \<Longrightarrow> handle ofs = Some p \<Longrightarrow>
   files fs p = Some old \<Longrightarrow>
   \<exists>ofs'. foldl and_then (Inr (ofs, fs)) (map ostream_insert css) =
       Inr (ofs', fs\<lparr>files := (files fs)(p \<mapsto> old @ take (avail fs) (concat css)),
                     avail := avail fs - length (concat css)\<rparr>)
      \<and> (rdstate ofs' = {} \<longleftrightarrow> length (concat css) \<le> avail fs)
      \<and> exceptions ofs' = {} \<and> handle ofs' = Some p"
proof (induction css arbitrary: fs old)
  case Nil
  have "(files fs)(p \<mapsto> old) = files fs"
    using Nil.prems(4) by (simp add: fun_upd_idem)
  then show ?case using Nil.prems(1-3) by simp
next
  case (Cons cs css)
  let ?fs1 = "fs\<lparr>files := (files fs)(p \<mapsto> old @ take (avail fs) cs),
                 avail := avail fs - length cs\<rparr>"
  have wr: "write_chars fs p cs = (length cs \<le> avail fs, ?fs1)"
    using Cons.prems(4) by (simp add: write_chars_def content_def)
  show ?case
  proof (cases "length cs \<le> avail fs")
    case True
    have step: "ostream_insert cs (ofs, fs) = Inr (ofs, ?fs1)"
      using Cons.prems True by (simp add: ostream_insert_def wr)
    have f1: "files ?fs1 p = Some (old @ cs)" using True by simp
    from Cons.IH [OF Cons.prems(1-3) f1] obtain ofs' where
      run: "foldl and_then (Inr (ofs, ?fs1)) (map ostream_insert css) =
        Inr (ofs', ?fs1\<lparr>files := (files ?fs1)(p \<mapsto> (old @ cs) @ take (avail ?fs1) (concat css)),
                     avail := avail ?fs1 - length (concat css)\<rparr>)"
      and st: "rdstate ofs' = {} \<longleftrightarrow> length (concat css) \<le> avail ?fs1"
      and rest: "exceptions ofs' = {}" "handle ofs' = Some p"
      by blast
    have eq: "?fs1\<lparr>files := (files ?fs1)(p \<mapsto> (old @ cs) @ take (avail ?fs1) (concat css)),
                     avail := avail ?fs1 - length (concat css)\<rparr> =
         fs\<lparr>files := (files fs)(p \<mapsto> old @ take (avail fs) (concat (cs # css))),
                     avail := avail fs - length (concat (cs # css))\<rparr>"
      using True by simp
    have st': "rdstate ofs' = {} \<longleftrightarrow> length (concat (cs # css)) \<le> avail fs"
      using st True by auto
    have "foldl and_then (Inr (ofs, fs)) (map ostream_insert (cs # css)) =
        foldl and_then (Inr (ofs, ?fs1)) (map ostream_insert css)"
      by (simp add: step)
    also have "\<dots> = Inr (ofs', fs\<lparr>files := (files fs)(p \<mapsto> old @ take (avail fs) (concat (cs # css))),
                     avail := avail fs - length (concat (cs # css))\<rparr>)"
      by (rule trans [OF run]) (rule arg_cong [OF eq])
    finally have "foldl and_then (Inr (ofs, fs)) (map ostream_insert (cs # css)) =
       Inr (ofs', fs\<lparr>files := (files fs)(p \<mapsto> old @ take (avail fs) (concat (cs # css))),
                     avail := avail fs - length (concat (cs # css))\<rparr>)
      \<and> (rdstate ofs' = {} \<longleftrightarrow> length (concat (cs # css)) \<le> avail fs)
      \<and> exceptions ofs' = {} \<and> handle ofs' = Some p"
      using st' rest by (intro conjI)
    then show ?thesis by (rule exI)
  next
    case False
    let ?ofs = "ofs\<lparr>rdstate := {badbit}\<rparr>"
    have step: "ostream_insert cs (ofs, fs) = Inr (?ofs, ?fs1)"
      using Cons.prems False by (simp add: ostream_insert_def wr setstate_quiet)
    have "rdstate ?ofs \<noteq> {}" "exceptions ?ofs = {}" using Cons.prems by simp_all
    from inserts_bad [OF this, of ?fs1 css] obtain ofs' where
      run: "foldl and_then (Inr (?ofs, ?fs1)) (map ostream_insert css) = Inr (ofs', ?fs1)"
      and rest: "rdstate ofs' \<noteq> {}" "exceptions ofs' = {}" "handle ofs' = handle ?ofs"
      by blast
    have eq: "?fs1 = fs\<lparr>files := (files fs)(p \<mapsto> old @ take (avail fs) (concat (cs # css))),
                     avail := avail fs - length (concat (cs # css))\<rparr>"
      using False by simp
    have st': "rdstate ofs' = {} \<longleftrightarrow> length (concat (cs # css)) \<le> avail fs"
      using False rest(1) by simp
    have h: "handle ofs' = Some p" using rest(3) Cons.prems(3) by simp
    have "foldl and_then (Inr (ofs, fs)) (map ostream_insert (cs # css)) =
        foldl and_then (Inr (?ofs, ?fs1)) (map ostream_insert css)"
      by (simp add: step)
    also have "\<dots> = Inr (ofs', fs\<lparr>files := (files fs)(p \<mapsto> old @ take (avail fs) (concat (cs # css))),
                     avail := avail fs - length (concat (cs # css))\<rparr>)"
      by (rule trans [OF run]) (rule arg_cong [OF eq])
    finally have "foldl and_then (Inr (ofs, fs)) (map ostream_insert (cs # css)) =
       Inr (ofs', fs\<lparr>files := (files fs)(p \<mapsto> old @ take (avail fs) (concat (cs # css))),
                     avail := avail fs - length (concat (cs # css))\<rparr>)
      \<and> (rdstate ofs' = {} \<longleftrightarrow> length (concat (cs # css)) \<le> avail fs)
      \<and> exceptions ofs' = {} \<and> handle ofs' = Some p"
      using st' rest(2) h by (intro conjI)
    then show ?thesis by (rule exI)
  qed
qed

subsection \<open>The timestamp\<close>

lemma is_digit_digit: "d < 10 \<Longrightarrow> is_digit (digit d)"
  by (simp add: is_digit_def digit_def)

lemma dec_digits: "c \<in> set (dec n) \<Longrightarrow> is_digit c"
proof (induction n rule: dec.induct)
  case (1 n)
  show ?case
  proof (cases "n < 10")
    case True
    with "1.prems" show ?thesis by (subst (asm) dec.simps) (simp add: is_digit_digit)
  next
    case False
    with 1 show ?thesis by (subst (asm) (2) dec.simps) (auto simp: is_digit_digit)
  qed
qed

lemma length_dec_le: "n < 10 ^ Suc k \<Longrightarrow> length (dec n) \<le> Suc k"
proof (induction k arbitrary: n)
  case 0
  then show ?case by (subst dec.simps) simp
next
  case (Suc k)
  show ?case
  proof (cases "n < 10")
    case True then show ?thesis by (subst dec.simps) simp
  next
    case False
    have "n div 10 < 10 ^ Suc k" using Suc.prems by simp
    then have "length (dec (n div 10)) \<le> Suc k" by (rule Suc.IH)
    with False show ?thesis by (subst dec.simps) simp
  qed
qed

lemma dec_int_chars: "c \<in> set (dec_int i) \<Longrightarrow> stamp_char c"
  by (auto simp: dec_int_def stamp_char_def dest: dec_digits split: if_splits)

lemma dec2_chars: "c \<in> set (dec2 i) \<Longrightarrow> stamp_char c"
  by (auto simp: dec2_def dest: dec_int_chars split: if_splits) (simp add: stamp_char_def is_digit_def)

lemma length_dec_int: "- (2 ^ 31) \<le> i \<Longrightarrow> i < 2 ^ 31 + 1900 \<Longrightarrow> length (dec_int i) \<le> 11"
proof -
  assume a: "- (2 ^ 31) \<le> i" "i < 2 ^ 31 + 1900"
  have "nat (- i) < 10 ^ Suc 9" "nat i < 10 ^ Suc 9" using a by simp_all
  then have "length (dec (nat (- i))) \<le> Suc 9" "length (dec (nat i)) \<le> Suc 9"
    by (simp_all only: length_dec_le)
  then show ?thesis by (simp add: dec_int_def)
qed

lemma length_dec2: "- (2 ^ 31) \<le> i \<Longrightarrow> i < 2 ^ 31 + 1900 \<Longrightarrow> length (dec2 i) \<le> 11"
proof -
  assume a: "- (2 ^ 31) \<le> i" "i < 2 ^ 31 + 1900"
  show ?thesis
  proof (cases "0 \<le> i \<and> i < 10")
    case True
    then have "nat i < 10 ^ Suc 0" by (simp add: nat_less_iff)
    then have "length (dec (nat i)) \<le> Suc 0" by (rule length_dec_le)
    with True show ?thesis by (simp add: dec2_def dec_int_def)
  next
    case False
    then have "dec2 i = dec_int i" by (auto simp: dec2_def)
    with length_dec_int [OF a] show ?thesis by simp
  qed
qed

lemma timestamp_eq:
  "timestamp t =
     ''['' @ dec2 (sint (tm_mday t)) @ ''-'' @ dec2 (sint (tm_mon t) + 1) @ ''-'' @
     dec_int (sint (tm_year t) + 1900) @ '' '' @
     dec2 (sint (tm_hour t)) @ '':'' @ dec2 (sint (tm_min t)) @ '':'' @ dec2 (sint (tm_sec t)) @ '']''"
  by (simp add: timestamp_def conversion_def)

lemma sint_c_int: "- (2 ^ 31) \<le> sint (x :: c_int)" "sint (x :: c_int) < 2 ^ 31"
  using sint_ge [of x] sint_lt [of x] by simp_all

lemma length_timestamp: "length (timestamp t) \<le> 73"
proof -
  have b: "\<And>x :: c_int. length (dec2 (sint x)) \<le> 11"
    using sint_c_int by (intro length_dec2) (simp_all add: less_le_trans [OF sint_c_int(2)])
  have m: "length (dec2 (sint (tm_mon t) + 1)) \<le> 11"
    using sint_c_int [of "tm_mon t"] by (intro length_dec2) simp_all
  have y: "length (dec_int (sint (tm_year t) + 1900)) \<le> 11"
    using sint_c_int [of "tm_year t"] by (intro length_dec_int) simp_all
  show ?thesis
    using b [of "tm_mday t"] b [of "tm_hour t"] b [of "tm_min t"] b [of "tm_sec t"] m y
    by (simp add: timestamp_eq)
qed

lemma timestamp_chars: "c \<in> set (timestamp t) \<Longrightarrow> stamp_char c"
  unfolding timestamp_eq
  by (auto dest: dec2_chars dec_int_chars) (simp_all add: stamp_char_def)

lemma stamp_char_control: "\<not> stamp_char NUL" "\<not> stamp_char TAB" "\<not> stamp_char NL"
  by (simp_all add: stamp_char_def is_digit_def NUL_def TAB_def NL_def)

lemma timestamp_control:
  "NUL \<notin> set (timestamp t)" "TAB \<notin> set (timestamp t)" "NL \<notin> set (timestamp t)"
  using timestamp_chars stamp_char_control by blast+

lemma c_str_terminated: "NUL \<notin> set s \<Longrightarrow> c_str (s @ [NUL]) = s"
  by (auto simp: c_str_def takeWhile_tail)

lemma getCurrentDateTime_eq: "getCurrentDateTime t = Some (timestamp t)"
  unfolding getCurrentDateTime_def strftime_def timestamp_def [symmetric]
  using length_timestamp [of t] c_str_terminated [OF timestamp_control(1), of t]
  by (simp add: Let_def)

subsection \<open>The call\<close>

lemma Log_run_unfold:
  "Log_run t fs path level logMsg =
     and_then
       (foldl and_then (ofstream_ctor (wc_str path) {ios_out, ios_app} fs)
          (map ostream_insert
             [timestamp t, [TAB], c_str level, [TAB], map narrow (wc_str logMsg), [NL]]))
       close"
  by (simp add: Log_run_def getCurrentDateTime_eq)

lemma concat_entry:
  "concat [timestamp t, [TAB], c_str level, [TAB], map narrow (wc_str logMsg), [NL]] =
     entry t level logMsg"
  by (simp add: entry_def log_line_def)

lemma ctor_fails:
  "\<not> can_open fs p \<Longrightarrow>
   ofstream_ctor p mode fs = Inr (\<lparr>handle = None, rdstate = {failbit}, exceptions = {}\<rparr>, fs)"
  by (simp add: ofstream_ctor_def filebuf_open_def setstate_def)

lemma ctor_appends:
  "can_open fs p \<Longrightarrow>
   ofstream_ctor p {ios_out, ios_app} fs =
     Inr (\<lparr>handle = Some p, rdstate = {}, exceptions = {}\<rparr>,
          fs\<lparr>files := (files fs)(p \<mapsto> content fs p)\<rparr>)"
  by (auto simp: ofstream_ctor_def filebuf_open_def content_def fun_upd_idem)

lemma Log_run_not_opened:
  assumes "\<not> can_open fs (wc_str path)"
  shows "\<exists>ofs. Log_run t fs path level logMsg = Inr (ofs, fs) \<and> rdstate ofs \<noteq> {}"
proof -
  let ?ofs = "\<lparr>handle = None, rdstate = {failbit}, exceptions = {}\<rparr>"
  have "rdstate ?ofs \<noteq> {}" "exceptions ?ofs = {}" by simp_all
  from inserts_bad [OF this] obtain ofs' where
    run: "foldl and_then (Inr (?ofs, fs)) (map ostream_insert
             [timestamp t, [TAB], c_str level, [TAB], map narrow (wc_str logMsg), [NL]]) =
          Inr (ofs', fs)"
    and st: "rdstate ofs' \<noteq> {}" "exceptions ofs' = {}" "handle ofs' = handle ?ofs"
    by blast
  have "close (ofs', fs) = Inr (ofs'\<lparr>rdstate := rdstate ofs' \<union> {failbit}\<rparr>, fs)"
    using st by (simp add: close_def setstate_quiet)
  then have "Log_run t fs path level logMsg = Inr (ofs'\<lparr>rdstate := rdstate ofs' \<union> {failbit}\<rparr>, fs)"
    unfolding Log_run_unfold ctor_fails [OF assms] run by simp
  then show ?thesis by simp
qed

lemma Log_run_opened:
  assumes "can_open fs (wc_str path)"
  shows "\<exists>ofs. Log_run t fs path level logMsg =
       Inr (ofs, fs\<lparr>files := (files fs)(wc_str path \<mapsto>
                        content fs (wc_str path) @ take (avail fs) (entry t level logMsg)),
                     avail := avail fs - length (entry t level logMsg)\<rparr>)
     \<and> (rdstate ofs = {} \<longleftrightarrow> length (entry t level logMsg) \<le> avail fs)"
proof -
  let ?p = "wc_str path"
  let ?ofs = "\<lparr>handle = Some ?p, rdstate = {}, exceptions = {}\<rparr>"
  let ?fs1 = "fs\<lparr>files := (files fs)(?p \<mapsto> content fs ?p)\<rparr>"
  let ?css = "[timestamp t, [TAB], c_str level, [TAB], map narrow (wc_str logMsg), [NL]]"
  let ?fs2 = "fs\<lparr>files := (files fs)(?p \<mapsto> content fs ?p @ take (avail fs) (entry t level logMsg)),
                     avail := avail fs - length (entry t level logMsg)\<rparr>"
  have "rdstate ?ofs = {}" "exceptions ?ofs = {}" "handle ?ofs = Some ?p"
    "files ?fs1 ?p = Some (content fs ?p)" by simp_all
  from inserts_good [OF this, of ?css] obtain ofs' where
    run: "foldl and_then (Inr (?ofs, ?fs1)) (map ostream_insert ?css) =
       Inr (ofs', ?fs1\<lparr>files := (files ?fs1)(?p \<mapsto> content fs ?p @ take (avail ?fs1) (concat ?css)),
                     avail := avail ?fs1 - length (concat ?css)\<rparr>)"
    and st: "rdstate ofs' = {} \<longleftrightarrow> length (concat ?css) \<le> avail ?fs1"
    and rest: "exceptions ofs' = {}" "handle ofs' = Some ?p"
    by blast
  have eq: "?fs1\<lparr>files := (files ?fs1)(?p \<mapsto> content fs ?p @ take (avail ?fs1) (concat ?css)),
                     avail := avail ?fs1 - length (concat ?css)\<rparr> = ?fs2"
    unfolding concat_entry by simp
  have cl: "close (ofs', ?fs2) = Inr (ofs'\<lparr>handle := None\<rparr>, ?fs2)"
    using rest by (simp add: close_def)
  have "Log_run t fs path level logMsg = Inr (ofs'\<lparr>handle := None\<rparr>, ?fs2)"
    unfolding Log_run_unfold ctor_appends [OF assms] run eq using cl by simp
  moreover have "rdstate (ofs'\<lparr>handle := None\<rparr>) = {} \<longleftrightarrow> length (entry t level logMsg) \<le> avail fs"
    using st unfolding concat_entry by simp
  ultimately show ?thesis by (intro exI conjI)
qed

lemma Log_run_succeeded:
  "succeeded (Log_run t fs path level logMsg) \<longleftrightarrow>
     can_open fs (wc_str path) \<and> length (entry t level logMsg) \<le> avail fs"
proof (cases "can_open fs (wc_str path)")
  case True
  from Log_run_opened [OF True, of t level logMsg] show ?thesis
    using True by (auto simp: succeeded_def)
next
  case False
  from Log_run_not_opened [OF False, of t level logMsg] show ?thesis
    using False by (auto simp: succeeded_def)
qed

lemma Log_run_result:
  assumes "succeeded (Log_run t fs path level logMsg)"
  shows "\<exists>ofs. Log_run t fs path level logMsg =
       Inr (ofs, fs\<lparr>files := (files fs)(wc_str path \<mapsto>
                        content fs (wc_str path) @ entry t level logMsg),
                     avail := avail fs - length (entry t level logMsg)\<rparr>)
     \<and> rdstate ofs = {}"
proof -
  from assms have op: "can_open fs (wc_str path)"
    and le: "length (entry t level logMsg) \<le> avail fs"
    by (simp_all add: Log_run_succeeded)
  from Log_run_opened [OF op, of t level logMsg] le show ?thesis by simp
qed

lemma Log_of_run: "Log_run t fs path level logMsg = Inr (ofs, fs') \<Longrightarrow>
    Log t fs path level logMsg = Inr ((), fs')"
  by (simp add: Log_def)

text \<open>
  C10. The timestamp and its terminator take fewer than 80 characters, whatever the time:
  \<^verbatim>\<open>strftime\<close> stores all of it in the buffer, and \<^verbatim>\<open>getCurrentDateTime\<close> returns
  the whole timestamp.
\<close>

theorem timestamp_fits_buffer:
  "length (expand ''[%d-%m-%Y %X]'' t) + 1 < 80 \<and>
   strftime 80 ''[%d-%m-%Y %X]'' t =
     Some (length (expand ''[%d-%m-%Y %X]'' t), expand ''[%d-%m-%Y %X]'' t @ [NUL]) \<and>
   getCurrentDateTime t = Some (expand ''[%d-%m-%Y %X]'' t)"
  unfolding strftime_def timestamp_def [symmetric]
  using length_timestamp [of t] getCurrentDateTime_eq [of t] by (simp add: Let_def)

text \<open>
  C1. A call that succeeds leaves the file at the path with the characters it had,
  followed by the timestamp, one tab, the level, one tab, the narrowed message and one
  newline, and by nothing else.
\<close>

theorem Log_appends_line:
  assumes "succeeded (Log_run t fs path level logMsg)"
  shows "\<exists>now fs'. getCurrentDateTime t = Some now \<and>
           Log t fs path level logMsg = Inr ((), fs') \<and>
           files fs' (wc_str path) =
             Some (content fs (wc_str path) @
                   now @ [TAB] @ c_str level @ [TAB] @ map narrow (wc_str logMsg) @ [NL])"
proof -
  from Log_run_result [OF assms] obtain ofs where
    run: "Log_run t fs path level logMsg =
       Inr (ofs, fs\<lparr>files := (files fs)(wc_str path \<mapsto>
                        content fs (wc_str path) @ entry t level logMsg),
                     avail := avail fs - length (entry t level logMsg)\<rparr>)"
    by blast
  show ?thesis
    using Log_of_run [OF run] getCurrentDateTime_eq [of t]
    by (simp add: entry_def log_line_def)
qed

theorem Log_appends_line_witness:
  "succeeded (Log_run demo_time demo_fs (wide ''logs/app.log'') ''ERROR'' (wide ''disk full'')) \<and>
   (\<exists>fs'. Log demo_time demo_fs (wide ''logs/app.log'') ''ERROR'' (wide ''disk full'') = Inr ((), fs') \<and>
      files fs' (wide ''logs/app.log'') =
        Some (''[05-03-2024 14:02:31]'' @ [TAB] @ ''ERROR'' @ [TAB] @ ''disk full'' @ [NL]))"
proof -
  have ok: "succeeded (Log_run demo_time demo_fs (wide ''logs/app.log'') ''ERROR'' (wide ''disk full''))"
    by code_simp
  have now: "getCurrentDateTime demo_time = Some ''[05-03-2024 14:02:31]''"
    by code_simp
  have args: "wc_str (wide ''logs/app.log'') = wide ''logs/app.log''"
    "content demo_fs (wide ''logs/app.log'') = []"
    "c_str ''ERROR'' = ''ERROR''"
    "map narrow (wc_str (wide ''disk full'')) = ''disk full''"
    by code_simp+
  from Log_appends_line [OF ok] show ?thesis
    using ok by (simp add: now args)
qed

subsection \<open>Splitting\<close>

lemma split_on_not_Nil [simp]: "split_on d xs \<noteq> []"
  by (induction xs) (simp_all add: Let_def)

lemma split_on_no_sep: "d \<notin> set xs \<Longrightarrow> split_on d xs = [xs]"
  by (induction xs) (auto simp: Let_def)

lemma split_on_append_sep: "d \<notin> set a \<Longrightarrow> split_on d (a @ d # rest) = a # split_on d rest"
  by (induction a) (auto simp: Let_def)

lemma split_on_append_tail:
  "d \<notin> set x \<Longrightarrow>
   split_on d (ys @ x) = butlast (split_on d ys) @ [last (split_on d ys) @ x]"
proof (induction ys)
  case Nil
  then show ?case by (simp add: split_on_no_sep)
next
  case (Cons c cs)
  show ?case
  proof (cases "split_on d cs")
    case Nil
    then show ?thesis by simp
  next
    case (Cons y zs)
    with Cons.IH [OF Cons.prems] show ?thesis
      by (cases zs) (simp_all add: Let_def)
  qed
qed

lemma lines_of_append_tail: "NL \<notin> set x \<Longrightarrow> lines_of (ys @ x) = lines_of ys"
  by (simp add: lines_of_def split_on_append_tail)

lemma lines_of_line: "NL \<notin> set l \<Longrightarrow> lines_of (l @ NL # rest) = l # lines_of rest"
  by (simp add: lines_of_def split_on_append_sep)

subsection \<open>Failure\<close>

lemma entry_not_Nil: "entry t level logMsg \<noteq> []"
  by (simp add: entry_def log_line_def)

lemma entry_body:
  "entry t level logMsg =
     (timestamp t @ [TAB] @ c_str level @ [TAB] @ map narrow (wc_str logMsg)) @ [NL]"
  by (simp add: entry_def log_line_def)

lemma content_update [simp]:
  "content (fs\<lparr>files := (files fs)(p \<mapsto> cs), avail := n\<rparr>) p = cs"
  by (simp add: content_def)

lemma can_open_parent: "can_open fs p \<Longrightarrow> dirname p \<in> dirs fs"
  by (simp add: can_open_def)

text \<open>
  C3, as the program has it. When the directory of the path does not exist the call
  returns as every call does, reporting nothing, and the file system is as it was: no file
  is created and nothing is written.
\<close>

theorem Log_missing_directory:
  assumes "dirname (wc_str path) \<notin> dirs fs"
  shows "Log t fs path level logMsg = Inr ((), fs) \<and>
         \<not> reports_failure (Log t fs path level logMsg)"
proof -
  from assms have "\<not> can_open fs (wc_str path)" by (auto dest: can_open_parent)
  from Log_run_not_opened [OF this, of t level logMsg] obtain ofs where
    "Log_run t fs path level logMsg = Inr (ofs, fs)" by blast
  then have "Log t fs path level logMsg = Inr ((), fs)" by (rule Log_of_run)
  then show ?thesis by (simp add: reports_failure_def)
qed

theorem Log_missing_directory_witness:
  "dirname (wc_str (wide ''nowhere/app.log'')) \<notin> dirs demo_fs \<and>
   Log demo_time demo_fs (wide ''nowhere/app.log'') ''ERROR'' (wide ''disk full'') =
     Inr ((), demo_fs) \<and>
   \<not> reports_failure
        (Log demo_time demo_fs (wide ''nowhere/app.log'') ''ERROR'' (wide ''disk full''))"
proof -
  have h: "dirname (wc_str (wide ''nowhere/app.log'')) \<notin> dirs demo_fs" by code_simp
  show ?thesis by (rule conjI [OF h Log_missing_directory [OF h]])
qed

text \<open>
  C3 as the specification states it fails: with the directory \<^verbatim>\<open>missing/\<close> absent, the
  call on \<^verbatim>\<open>missing/app.log\<close> does not report a failure.
\<close>

theorem Log_reports_failure_counterexample:
  "dirname (wc_str (wide ''missing/app.log'')) \<notin> dirs demo_fs \<and>
   \<not> reports_failure (Log demo_time demo_fs (wide ''missing/app.log'') ''WARN'' (wide ''low space''))"
  by code_simp

lemma take_snoc: "k < length (xs @ [y]) \<Longrightarrow> take k (xs @ [y]) = take k xs"
  by simp

lemma take_entry_no_NL:
  assumes "NL \<notin> set (c_str level)" "NL \<notin> set (map narrow (wc_str logMsg))"
    and "k < length (entry t level logMsg)"
  shows "NL \<notin> set (take k (entry t level logMsg))"
proof -
  let ?body = "timestamp t @ [TAB] @ c_str level @ [TAB] @ map narrow (wc_str logMsg)"
  have "NL \<notin> set ?body"
    using assms(1,2) timestamp_control(3) [of t] by (simp add: NL_def TAB_def)
  moreover have "take k (entry t level logMsg) = take k ?body"
    using assms(3) unfolding entry_body by (rule take_snoc)
  ultimately show ?thesis by (metis in_set_takeD)
qed

text \<open>
  C7, as the program has it. When the file cannot be opened or the device does not take
  the whole entry, the call returns as every call does and reports nothing. The file system
  is as it was when the open failed; otherwise the file has gained only the first
  characters of the entry, fewer than the entry has, so that the entry is not in the file;
  and for a level and a narrowed message without a newline the file has the lines it had.
\<close>

theorem Log_failure_silent:
  assumes "\<not> succeeded (Log_run t fs path level logMsg)"
  shows "\<exists>fs' k. Log t fs path level logMsg = Inr ((), fs') \<and>
           \<not> reports_failure (Log t fs path level logMsg) \<and>
           k < length (entry t level logMsg) \<and>
           content fs' (wc_str path) = content fs (wc_str path) @ take k (entry t level logMsg) \<and>
           content fs' (wc_str path) \<noteq> content fs (wc_str path) @ entry t level logMsg \<and>
           (\<not> can_open fs (wc_str path) \<longrightarrow> fs' = fs) \<and>
           (NL \<notin> set (c_str level) \<and> NL \<notin> set (map narrow (wc_str logMsg)) \<longrightarrow>
              lines_of (content fs' (wc_str path)) = lines_of (content fs (wc_str path)))"
proof (cases "can_open fs (wc_str path)")
  case False
  from Log_run_not_opened [OF False, of t level logMsg] obtain ofs where
    run: "Log_run t fs path level logMsg = Inr (ofs, fs)" by blast
  have l: "Log t fs path level logMsg = Inr ((), fs)" by (rule Log_of_run [OF run])
  have "0 < length (entry t level logMsg)" using entry_not_Nil [of t level logMsg] by simp
  then show ?thesis
    using l entry_not_Nil [of t level logMsg]
    by (intro exI [of _ fs] exI [of _ 0]) (simp add: reports_failure_def)
next
  case True
  let ?e = "entry t level logMsg"
  let ?p = "wc_str path"
  let ?fs' = "fs\<lparr>files := (files fs)(?p \<mapsto> content fs ?p @ take (avail fs) ?e),
                 avail := avail fs - length ?e\<rparr>"
  from assms True have short: "avail fs < length ?e"
    by (simp add: Log_run_succeeded)
  from Log_run_opened [OF True, of t level logMsg] obtain ofs where
    run: "Log_run t fs path level logMsg = Inr (ofs, ?fs')" by blast
  have l: "Log t fs path level logMsg = Inr ((), ?fs')" by (rule Log_of_run [OF run])
  have c: "content ?fs' ?p = content fs ?p @ take (avail fs) ?e" by simp
  have ne: "content ?fs' ?p \<noteq> content fs ?p @ ?e"
  proof
    assume "content ?fs' ?p = content fs ?p @ ?e"
    then have "take (avail fs) ?e = ?e" unfolding c by simp
    then have "length (take (avail fs) ?e) = length ?e" by simp
    with short show False by simp
  qed
  have ln: "NL \<notin> set (c_str level) \<and> NL \<notin> set (map narrow (wc_str logMsg)) \<longrightarrow>
      lines_of (content ?fs' ?p) = lines_of (content fs ?p)"
    unfolding c using take_entry_no_NL [OF _ _ short] by (auto intro: lines_of_append_tail)
  have rf: "\<not> reports_failure (Log t fs path level logMsg)"
    unfolding l by (simp add: reports_failure_def)
  show ?thesis
    using l rf short c ne ln True
    by (intro exI [of _ ?fs'] exI [of _ "avail fs"] conjI) simp_all
qed

theorem Log_failure_silent_witness:
  "\<not> succeeded (Log_run demo_time demo_fs (wide ''nowhere/app.log'') ''ERROR'' (wide ''disk full'')) \<and>
   \<not> succeeded (Log_run demo_time full_fs (wide ''logs/old.log'') ''ERROR'' (wide ''disk full'')) \<and>
   (\<exists>fs' k. Log demo_time full_fs (wide ''logs/old.log'') ''ERROR'' (wide ''disk full'') = Inr ((), fs') \<and>
      content fs' (wide ''logs/old.log'') = ''first'' @ [NL] @ ''[05-03-2024 14:02:31]'' @ [TAB] @ ''ERR'' \<and>
      lines_of (content fs' (wide ''logs/old.log'')) = [''first'']) \<and>
   (\<exists>fs'. Log demo_time demo_fs (wide ''nowhere/app.log'') ''ERROR'' (wide ''disk full'') = Inr ((), fs') \<and>
      fs' = demo_fs)"
proof -
  have a: "\<not> succeeded (Log_run demo_time demo_fs (wide ''nowhere/app.log'') ''ERROR'' (wide ''disk full''))"
    by code_simp
  have b: "\<not> succeeded (Log_run demo_time full_fs (wide ''logs/old.log'') ''ERROR'' (wide ''disk full''))"
    by code_simp
  have open_fails: "\<not> can_open demo_fs (wc_str (wide ''nowhere/app.log''))" by code_simp
  have args: "wc_str (wide ''logs/old.log'') = wide ''logs/old.log''"
    "NL \<notin> set (c_str ''ERROR'')" "NL \<notin> set (map narrow (wc_str (wide ''disk full'')))"
    "lines_of (content full_fs (wide ''logs/old.log'')) = [''first'']"
    by code_simp+
  have c: "content (snd (projr (Log demo_time full_fs (wide ''logs/old.log'') ''ERROR'' (wide ''disk full''))))
      (wide ''logs/old.log'') = ''first'' @ [NL] @ ''[05-03-2024 14:02:31]'' @ [TAB] @ ''ERR''"
    by code_simp
  from Log_failure_silent [OF b] obtain fs' k where
    "Log demo_time full_fs (wide ''logs/old.log'') ''ERROR'' (wide ''disk full'') = Inr ((), fs')"
    "lines_of (content fs' (wide ''logs/old.log'')) = [''first'']"
    using args by auto
  moreover from this(1) c have
    "content fs' (wide ''logs/old.log'') = ''first'' @ [NL] @ ''[05-03-2024 14:02:31]'' @ [TAB] @ ''ERR''"
    by simp
  moreover from Log_failure_silent [OF a] open_fails have
    "\<exists>fs'. Log demo_time demo_fs (wide ''nowhere/app.log'') ''ERROR'' (wide ''disk full'') = Inr ((), fs') \<and>
      fs' = demo_fs" by auto
  ultimately show ?thesis using a b by blast
qed

text \<open>
  C7 as the specification states it fails: on a device with room for 40 characters the call
  with a message of two lines fails, and the file, of the one line \<^verbatim>\<open>first\<close> before, has
  gained a second line, the timestamp, the level and the first line of the message.
\<close>

theorem Log_failure_silent_counterexample:
  "\<not> succeeded (Log_run demo_time tight_fs (wide ''logs/old.log'') ''INFO''
        (wide (''line one'' @ [NL] @ ''line two''))) \<and>
   lines_of (content tight_fs (wide ''logs/old.log'')) = [''first''] \<and>
   lines_of (content (snd (projr (Log demo_time tight_fs (wide ''logs/old.log'') ''INFO''
        (wide (''line one'' @ [NL] @ ''line two''))))) (wide ''logs/old.log'')) =
     [''first'', ''[05-03-2024 14:02:31]'' @ [TAB] @ ''INFO'' @ [TAB] @ ''line one'']"
  by code_simp

subsection \<open>Calls in sequence\<close>

lemma Log_seq_content:
  "Log_seq fs path calls = Some fs' \<Longrightarrow>
   content fs' (wc_str path) =
     content fs (wc_str path) @ concat (map (\<lambda>(t, level, logMsg). entry t level logMsg) calls)"
proof (induction calls arbitrary: fs)
  case Nil
  then show ?case by simp
next
  case (Cons c calls)
  obtain t level logMsg where c: "c = (t, level, logMsg)" by (cases c)
  let ?fs1 = "fs\<lparr>files := (files fs)(wc_str path \<mapsto>
                        content fs (wc_str path) @ entry t level logMsg),
                  avail := avail fs - length (entry t level logMsg)\<rparr>"
  from Cons.prems have ok: "succeeded (Log_run t fs path level logMsg)"
    by (auto simp: c succeeded_def split: sum.splits if_splits)
  from Log_run_result [OF ok] obtain ofs where
    run: "Log_run t fs path level logMsg = Inr (ofs, ?fs1)" and "rdstate ofs = {}" by blast
  with Cons.prems have "Log_seq ?fs1 path calls = Some fs'" by (simp add: c)
  from Cons.IH [OF this] show ?case by (simp add: c)
qed

text \<open>
  C8. Whatever the file holds and whether the call succeeds or not, the call returns and
  the file then begins with the characters it held; and two calls that succeed leave what
  the file held, then the entry of the first, then the entry of the second.
\<close>

theorem Log_keeps_content:
  "(\<exists>fs' added. Log t fs path level logMsg = Inr ((), fs') \<and>
       content fs' (wc_str path) = content fs (wc_str path) @ added) \<and>
   (Log_seq fs path [(t, level, logMsg), (t2, level2, logMsg2)] \<noteq> None \<longrightarrow>
      map_option (\<lambda>fs2. content fs2 (wc_str path))
        (Log_seq fs path [(t, level, logMsg), (t2, level2, logMsg2)]) =
      Some (content fs (wc_str path) @ entry t level logMsg @ entry t2 level2 logMsg2))"
proof
  show "\<exists>fs' added. Log t fs path level logMsg = Inr ((), fs') \<and>
       content fs' (wc_str path) = content fs (wc_str path) @ added"
  proof (cases "can_open fs (wc_str path)")
    case True
    let ?fs' = "fs\<lparr>files := (files fs)(wc_str path \<mapsto>
                        content fs (wc_str path) @ take (avail fs) (entry t level logMsg)),
                  avail := avail fs - length (entry t level logMsg)\<rparr>"
    from Log_run_opened [OF True, of t level logMsg] obtain ofs where
      "Log_run t fs path level logMsg = Inr (ofs, ?fs')" by blast
    then have "Log t fs path level logMsg = Inr ((), ?fs')" by (rule Log_of_run)
    moreover have "content ?fs' (wc_str path) =
        content fs (wc_str path) @ take (avail fs) (entry t level logMsg)"
      by (rule content_update)
    ultimately show ?thesis by blast
  next
    case False
    from Log_run_not_opened [OF False, of t level logMsg] obtain ofs where
      "Log_run t fs path level logMsg = Inr (ofs, fs)" by blast
    then have "Log t fs path level logMsg = Inr ((), fs)" by (rule Log_of_run)
    moreover have "content fs (wc_str path) = content fs (wc_str path) @ []" by simp
    ultimately show ?thesis by blast
  qed
next
  show "Log_seq fs path [(t, level, logMsg), (t2, level2, logMsg2)] \<noteq> None \<longrightarrow>
      map_option (\<lambda>fs2. content fs2 (wc_str path))
        (Log_seq fs path [(t, level, logMsg), (t2, level2, logMsg2)]) =
      Some (content fs (wc_str path) @ entry t level logMsg @ entry t2 level2 logMsg2)"
  proof
    assume "Log_seq fs path [(t, level, logMsg), (t2, level2, logMsg2)] \<noteq> None"
    then obtain fs2 where
      s: "Log_seq fs path [(t, level, logMsg), (t2, level2, logMsg2)] = Some fs2" by blast
    from Log_seq_content [OF s] show "map_option (\<lambda>fs2. content fs2 (wc_str path))
        (Log_seq fs path [(t, level, logMsg), (t2, level2, logMsg2)]) =
      Some (content fs (wc_str path) @ entry t level logMsg @ entry t2 level2 logMsg2)"
      unfolding s by simp
  qed
qed

theorem Log_keeps_content_witness:
  "Log_seq demo_fs (wide ''logs/old.log'')
     [(demo_time, ''ERROR'', wide ''disk full''), (demo_time, ''INFO'', wide ''retry'')] \<noteq> None \<and>
   map_option (\<lambda>fs2. content fs2 (wide ''logs/old.log''))
     (Log_seq demo_fs (wide ''logs/old.log'')
        [(demo_time, ''ERROR'', wide ''disk full''), (demo_time, ''INFO'', wide ''retry'')]) =
   Some (''first'' @ [NL] @
         ''[05-03-2024 14:02:31]'' @ [TAB] @ ''ERROR'' @ [TAB] @ ''disk full'' @ [NL] @
         ''[05-03-2024 14:02:31]'' @ [TAB] @ ''INFO'' @ [TAB] @ ''retry'' @ [NL])"
proof -
  have h: "Log_seq demo_fs (wide ''logs/old.log'')
     [(demo_time, ''ERROR'', wide ''disk full''), (demo_time, ''INFO'', wide ''retry'')] \<noteq> None"
    by code_simp
  have args: "wc_str (wide ''logs/old.log'') = wide ''logs/old.log''"
    "content demo_fs (wide ''logs/old.log'') = ''first'' @ [NL]"
    "entry demo_time ''ERROR'' (wide ''disk full'') =
       ''[05-03-2024 14:02:31]'' @ [TAB] @ ''ERROR'' @ [TAB] @ ''disk full'' @ [NL]"
    "entry demo_time ''INFO'' (wide ''retry'') =
       ''[05-03-2024 14:02:31]'' @ [TAB] @ ''INFO'' @ [TAB] @ ''retry'' @ [NL]"
    by code_simp+
  from Log_keeps_content [of demo_time demo_fs "wide ''logs/old.log''" "''ERROR''"
      "wide ''disk full''" demo_time "''INFO''" "wide ''retry''"] h
  have "map_option (\<lambda>fs2. content fs2 (wc_str (wide ''logs/old.log'')))
     (Log_seq demo_fs (wide ''logs/old.log'')
        [(demo_time, ''ERROR'', wide ''disk full''), (demo_time, ''INFO'', wide ''retry'')]) =
     Some (content demo_fs (wc_str (wide ''logs/old.log'')) @
       entry demo_time ''ERROR'' (wide ''disk full'') @ entry demo_time ''INFO'' (wide ''retry''))"
    by blast
  then show ?thesis using h unfolding args by simp
qed

lemma lines_of_lines:
  "\<forall>l \<in> set ls. NL \<notin> set l \<Longrightarrow> lines_of (concat (map (\<lambda>l. l @ [NL]) ls)) = ls"
proof (induction ls)
  case Nil
  then show ?case by (simp add: lines_of_def)
next
  case (Cons l ls)
  then show ?case using lines_of_line [of l] by simp
qed

text \<open>
  C2, as the program has it. After calls that all succeed, one after the other, on a path
  that had no file, with levels and narrowed messages that hold no newline, the lines of
  the file are the timestamp, tab, level, tab and message of each call, in the order of the
  calls; they are as many as the calls, and the file holds them and their newlines only.
\<close>

theorem Log_seq_lines:
  assumes "files fs (wc_str path) = None"
    and "Log_seq fs path calls = Some fs'"
    and "\<forall>c \<in> set calls. NL \<notin> set (c_str (fst (snd c))) \<and>
           NL \<notin> set (map narrow (wc_str (snd (snd c))))"
  shows "lines_of (content fs' (wc_str path)) =
           map (\<lambda>(t, level, logMsg).
                  timestamp t @ [TAB] @ c_str level @ [TAB] @ map narrow (wc_str logMsg)) calls \<and>
         length (lines_of (content fs' (wc_str path))) = length calls \<and>
         content fs' (wc_str path) =
           concat (map (\<lambda>l. l @ [NL]) (lines_of (content fs' (wc_str path))))"
proof -
  let ?line = "\<lambda>(t, level, logMsg).
                  timestamp t @ [TAB] @ c_str level @ [TAB] @ map narrow (wc_str logMsg)"
  have old: "content fs (wc_str path) = []" using assms(1) by (simp add: content_def)
  have "map (\<lambda>(t, level, logMsg). entry t level logMsg) calls =
        map (\<lambda>l. l @ [NL]) (map ?line calls)"
    by (simp add: entry_body split_def)
  with Log_seq_content [OF assms(2)] old have
    c: "content fs' (wc_str path) = concat (map (\<lambda>l. l @ [NL]) (map ?line calls))"
    by simp
  have "\<forall>l \<in> set (map ?line calls). NL \<notin> set l"
    using assms(3) timestamp_control(3) by (auto simp: NL_def TAB_def)
  from lines_of_lines [OF this] have
    l: "lines_of (content fs' (wc_str path)) = map ?line calls" unfolding c .
  show ?thesis unfolding l using c by simp
qed

theorem Log_seq_lines_witness:
  "files demo_fs (wc_str (wide ''logs/app.log'')) = None \<and>
   (\<exists>fs'. Log_seq demo_fs (wide ''logs/app.log'')
       [(demo_time, ''ERROR'', wide ''disk full''), (demo_time, ''INFO'', wide ''retry''),
        (demo_time, ''INFO'', wide ''done'')] = Some fs' \<and>
      lines_of (content fs' (wide ''logs/app.log'')) =
        [''[05-03-2024 14:02:31]'' @ [TAB] @ ''ERROR'' @ [TAB] @ ''disk full'',
         ''[05-03-2024 14:02:31]'' @ [TAB] @ ''INFO'' @ [TAB] @ ''retry'',
         ''[05-03-2024 14:02:31]'' @ [TAB] @ ''INFO'' @ [TAB] @ ''done''] \<and>
      length (lines_of (content fs' (wide ''logs/app.log''))) = 3)"
proof -
  let ?calls = "[(demo_time, ''ERROR'', wide ''disk full''), (demo_time, ''INFO'', wide ''retry''),
        (demo_time, ''INFO'', wide ''done'')]"
  have fresh: "files demo_fs (wc_str (wide ''logs/app.log'')) = None" by code_simp
  have "Log_seq demo_fs (wide ''logs/app.log'') ?calls \<noteq> None" by code_simp
  then obtain fs' where run: "Log_seq demo_fs (wide ''logs/app.log'') ?calls = Some fs'"
    by blast
  have clean: "\<forall>c \<in> set ?calls. NL \<notin> set (c_str (fst (snd c))) \<and>
           NL \<notin> set (map narrow (wc_str (snd (snd c))))"
    by code_simp
  have args: "wc_str (wide ''logs/app.log'') = wide ''logs/app.log''"
    "timestamp demo_time = ''[05-03-2024 14:02:31]''"
    "c_str ''ERROR'' = ''ERROR''" "c_str ''INFO'' = ''INFO''"
    "map narrow (wc_str (wide ''disk full'')) = ''disk full''"
    "map narrow (wc_str (wide ''retry'')) = ''retry''"
    "map narrow (wc_str (wide ''done'')) = ''done''"
    by code_simp+
  from Log_seq_lines [OF fresh run clean] show ?thesis
    using fresh run by (simp add: args)
qed

text \<open>
  C2 as the specification states it fails: one call, with a message of two lines, on a
  path without a file leaves a file of two lines, and the second is not of the format.
\<close>

theorem Log_seq_lines_counterexample:
  "files demo_fs (wc_str (wide ''logs/app.log'')) = None \<and>
   map_option (\<lambda>fs'. lines_of (content fs' (wide ''logs/app.log'')))
     (Log_seq demo_fs (wide ''logs/app.log'')
        [(demo_time, ''INFO'', wide (''line one'' @ [NL] @ ''line two''))]) =
   Some [''[05-03-2024 14:02:31]'' @ [TAB] @ ''INFO'' @ [TAB] @ ''line one'', ''line two'']"
  by code_simp

text \<open>
  C6, as the program has it. A call that succeeds, with a level and a narrowed message
  that hold no newline, adds characters with one newline among them, the last.
\<close>

theorem Log_one_newline:
  assumes "succeeded (Log_run t fs path level logMsg)"
    and "NL \<notin> set (c_str level)"
    and "NL \<notin> set (map narrow (wc_str logMsg))"
  shows "\<exists>fs' added. Log t fs path level logMsg = Inr ((), fs') \<and>
           content fs' (wc_str path) = content fs (wc_str path) @ added \<and>
           count_list added NL = 1 \<and> last added = NL"
proof -
  let ?fs' = "fs\<lparr>files := (files fs)(wc_str path \<mapsto>
                        content fs (wc_str path) @ entry t level logMsg),
                  avail := avail fs - length (entry t level logMsg)\<rparr>"
  from Log_run_result [OF assms(1)] obtain ofs where
    "Log_run t fs path level logMsg = Inr (ofs, ?fs')" by blast
  then have "Log t fs path level logMsg = Inr ((), ?fs')" by (rule Log_of_run)
  moreover have "content ?fs' (wc_str path) = content fs (wc_str path) @ entry t level logMsg"
    by (rule content_update)
  moreover have "count_list (entry t level logMsg) NL = 1"
    using assms(2,3) timestamp_control(3) [of t]
    by (simp add: entry_body) (simp add: NL_def TAB_def)
  moreover have "last (entry t level logMsg) = NL" by (simp add: entry_body)
  ultimately show ?thesis by blast
qed

theorem Log_one_newline_witness:
  "succeeded (Log_run demo_time demo_fs (wide ''logs/old.log'') ''INFO'' (wide ''retry'')) \<and>
   NL \<notin> set (c_str ''INFO'') \<and> NL \<notin> set (map narrow (wc_str (wide ''retry''))) \<and>
   (\<exists>fs' added. Log demo_time demo_fs (wide ''logs/old.log'') ''INFO'' (wide ''retry'') = Inr ((), fs') \<and>
           content fs' (wc_str (wide ''logs/old.log'')) =
             content demo_fs (wc_str (wide ''logs/old.log'')) @ added \<and>
           count_list added NL = 1 \<and> last added = NL)"
proof -
  have h: "succeeded (Log_run demo_time demo_fs (wide ''logs/old.log'') ''INFO'' (wide ''retry''))"
    "NL \<notin> set (c_str ''INFO'')" "NL \<notin> set (map narrow (wc_str (wide ''retry'')))"
    by code_simp+
  from Log_one_newline [OF h] h show ?thesis by blast
qed

text \<open>
  C6 as the specification states it fails: a call that succeeds with a message of two lines
  adds two newlines to the file.
\<close>

theorem Log_one_newline_counterexample:
  "succeeded (Log_run demo_time demo_fs (wide ''logs/old.log'') ''INFO''
      (wide (''line one'' @ [NL] @ ''line two''))) \<and>
   count_list
     (drop (length (content demo_fs (wide ''logs/old.log'')))
        (content (snd (projr (Log demo_time demo_fs (wide ''logs/old.log'') ''INFO''
            (wide (''line one'' @ [NL] @ ''line two''))))) (wide ''logs/old.log''))) NL = 2"
  by code_simp

subsection \<open>Fields\<close>

lemma split_on_three:
  "d \<notin> set a \<Longrightarrow> d \<notin> set b \<Longrightarrow> d \<notin> set c \<Longrightarrow>
   split_on d (a @ [d] @ b @ [d] @ c) = [a, b, c]"
  by (simp add: split_on_append_sep split_on_no_sep)

text \<open>
  C5, as the program has it. For a level that holds neither tab nor newline and a message
  whose narrowed characters are neither tab nor newline, a call that succeeds adds one line
  to the file, and splitting the line at the tabs gives three fields: the timestamp, the
  level and the narrowed message.
\<close>

theorem Log_three_fields:
  assumes "succeeded (Log_run t fs path level logMsg)"
    and "TAB \<notin> set (c_str level) \<and> NL \<notin> set (c_str level)"
    and "TAB \<notin> set (map narrow (wc_str logMsg)) \<and> NL \<notin> set (map narrow (wc_str logMsg))"
  shows "\<exists>now fs' line. getCurrentDateTime t = Some now \<and>
           Log t fs path level logMsg = Inr ((), fs') \<and>
           content fs' (wc_str path) = content fs (wc_str path) @ line @ [NL] \<and>
           NL \<notin> set line \<and>
           split_on TAB line = [now, c_str level, map narrow (wc_str logMsg)]"
proof -
  let ?fs' = "fs\<lparr>files := (files fs)(wc_str path \<mapsto>
                        content fs (wc_str path) @ entry t level logMsg),
                  avail := avail fs - length (entry t level logMsg)\<rparr>"
  let ?line = "timestamp t @ [TAB] @ c_str level @ [TAB] @ map narrow (wc_str logMsg)"
  from Log_run_result [OF assms(1)] obtain ofs where
    "Log_run t fs path level logMsg = Inr (ofs, ?fs')" by blast
  then have "Log t fs path level logMsg = Inr ((), ?fs')" by (rule Log_of_run)
  moreover have "content ?fs' (wc_str path) = content fs (wc_str path) @ ?line @ [NL]"
    unfolding entry_body [symmetric] by (rule content_update)
  moreover have "NL \<notin> set ?line"
    using assms(2,3) timestamp_control(3) [of t] by (simp add: NL_def TAB_def)
  moreover have "split_on TAB ?line = [timestamp t, c_str level, map narrow (wc_str logMsg)]"
    using assms(2,3) timestamp_control(2) [of t] by (intro split_on_three) simp_all
  ultimately show ?thesis using getCurrentDateTime_eq [of t] by blast
qed

theorem Log_three_fields_witness:
  "succeeded (Log_run demo_time demo_fs (wide ''logs/old.log'') ''ERROR'' (wide ''disk full'')) \<and>
   (TAB \<notin> set (c_str ''ERROR'') \<and> NL \<notin> set (c_str ''ERROR'')) \<and>
   (TAB \<notin> set (map narrow (wc_str (wide ''disk full''))) \<and>
    NL \<notin> set (map narrow (wc_str (wide ''disk full'')))) \<and>
   (\<exists>fs' line. Log demo_time demo_fs (wide ''logs/old.log'') ''ERROR'' (wide ''disk full'') = Inr ((), fs') \<and>
      content fs' (wide ''logs/old.log'') = ''first'' @ [NL] @ line @ [NL] \<and>
      split_on TAB line = [''[05-03-2024 14:02:31]'', ''ERROR'', ''disk full''])"
proof -
  have h: "succeeded (Log_run demo_time demo_fs (wide ''logs/old.log'') ''ERROR'' (wide ''disk full''))"
    "TAB \<notin> set (c_str ''ERROR'') \<and> NL \<notin> set (c_str ''ERROR'')"
    "TAB \<notin> set (map narrow (wc_str (wide ''disk full''))) \<and>
     NL \<notin> set (map narrow (wc_str (wide ''disk full'')))"
    by code_simp+
  have args: "getCurrentDateTime demo_time = Some ''[05-03-2024 14:02:31]''"
    "wc_str (wide ''logs/old.log'') = wide ''logs/old.log''"
    "content demo_fs (wide ''logs/old.log'') = ''first'' @ [NL]"
    "c_str ''ERROR'' = ''ERROR''"
    "map narrow (wc_str (wide ''disk full'')) = ''disk full''"
    by code_simp+
  from Log_three_fields [OF h] have
    "\<exists>fs' line. Log demo_time demo_fs (wide ''logs/old.log'') ''ERROR'' (wide ''disk full'') = Inr ((), fs') \<and>
      content fs' (wide ''logs/old.log'') = ''first'' @ [NL] @ line @ [NL] \<and>
      split_on TAB line = [''[05-03-2024 14:02:31]'', ''ERROR'', ''disk full'']"
    unfolding args by auto
  with h show ?thesis by blast
qed

text \<open>
  C5 as the specification states it fails: the message of the one wide character 0x0109
  holds neither tab nor newline, its narrowed form is a tab, and the line that the call
  adds splits into four fields.
\<close>

theorem Log_three_fields_counterexample:
  "9 \<notin> set (wc_str [0x0109]) \<and> 10 \<notin> set (wc_str [0x0109]) \<and>
   TAB \<notin> set (c_str ''ERROR'') \<and> NL \<notin> set (c_str ''ERROR'') \<and>
   succeeded (Log_run demo_time demo_fs (wide ''logs/app.log'') ''ERROR'' [0x0109]) \<and>
   content (snd (projr (Log demo_time demo_fs (wide ''logs/app.log'') ''ERROR'' [0x0109])))
     (wide ''logs/app.log'') =
     ''[05-03-2024 14:02:31]'' @ [TAB] @ ''ERROR'' @ [TAB] @ [TAB] @ [NL] \<and>
   split_on TAB (''[05-03-2024 14:02:31]'' @ [TAB] @ ''ERROR'' @ [TAB] @ [TAB]) =
     [''[05-03-2024 14:02:31]'', ''ERROR'', [], []]"
  by code_simp

subsection \<open>Narrowing\<close>

text \<open>
  C9. Each wide character of the message becomes the character of its low eight bits: a
  character below 256 keeps its value, any other is mapped and none is dropped or refused;
  whether the call succeeds depends on the length of the message only; a call that
  succeeds writes the narrowed message as the third field; and a message of characters
  below 256 is written character for character.
\<close>

theorem Log_narrows_message:
  "(of_char (narrow c) :: nat) = unat c mod 256 \<and>
   (unat c < 256 \<longrightarrow> (of_char (narrow c) :: nat) = unat c) \<and>
   length (map narrow (wc_str logMsg)) = length (wc_str logMsg) \<and>
   (length (wc_str other) = length (wc_str logMsg) \<longrightarrow>
      succeeded (Log_run t fs path level other) = succeeded (Log_run t fs path level logMsg)) \<and>
   (succeeded (Log_run t fs path level logMsg) \<longrightarrow>
      (\<exists>fs'. Log t fs path level logMsg = Inr ((), fs') \<and>
         content fs' (wc_str path) =
           content fs (wc_str path) @
           log_line (timestamp t) (c_str level) (map narrow (wc_str logMsg)))) \<and>
   ((\<forall>w \<in> set (wc_str logMsg). unat w < 256) \<longrightarrow>
      map of_char (map narrow (wc_str logMsg)) = map unat (wc_str logMsg))"
proof (intro conjI impI)
  show "(of_char (narrow c) :: nat) = unat c mod 256" by (simp add: narrow_def)
next
  assume "unat c < 256"
  then show "(of_char (narrow c) :: nat) = unat c" by (simp add: narrow_def)
next
  show "length (map narrow (wc_str logMsg)) = length (wc_str logMsg)" by simp
next
  assume "length (wc_str other) = length (wc_str logMsg)"
  then have "length (entry t level other) = length (entry t level logMsg)"
    by (simp add: entry_def log_line_def)
  then show "succeeded (Log_run t fs path level other) = succeeded (Log_run t fs path level logMsg)"
    by (simp add: Log_run_succeeded)
next
  assume ok: "succeeded (Log_run t fs path level logMsg)"
  let ?fs' = "fs\<lparr>files := (files fs)(wc_str path \<mapsto>
                        content fs (wc_str path) @ entry t level logMsg),
                  avail := avail fs - length (entry t level logMsg)\<rparr>"
  from Log_run_result [OF ok] obtain ofs where
    "Log_run t fs path level logMsg = Inr (ofs, ?fs')" by blast
  then have "Log t fs path level logMsg = Inr ((), ?fs')" by (rule Log_of_run)
  moreover have "content ?fs' (wc_str path) = content fs (wc_str path) @
      log_line (timestamp t) (c_str level) (map narrow (wc_str logMsg))"
    unfolding entry_def [symmetric] by (rule content_update)
  ultimately show "\<exists>fs'. Log t fs path level logMsg = Inr ((), fs') \<and>
         content fs' (wc_str path) =
           content fs (wc_str path) @
           log_line (timestamp t) (c_str level) (map narrow (wc_str logMsg))" by blast
next
  assume "\<forall>w \<in> set (wc_str logMsg). unat w < 256"
  then show "map of_char (map narrow (wc_str logMsg)) = map unat (wc_str logMsg)"
    by (simp add: narrow_def)
qed

theorem Log_narrows_message_witness:
  "unat (0xE9 :: wchar_t) < 256 \<and> (of_char (narrow 0xE9) :: nat) = 233 \<and>
   length (wc_str (wide ''disc full'')) = length (wc_str (wide ''disk full'')) \<and>
   succeeded (Log_run demo_time demo_fs (wide ''logs/app.log'') ''ERROR'' (wide ''disc full'')) \<and>
   succeeded (Log_run demo_time demo_fs (wide ''logs/app.log'') ''ERROR'' (wide ''disk full'')) \<and>
   list_all (\<lambda>w. unat w < 256) (wc_str (wide ''disk full'')) \<and>
   map of_char (map narrow (wc_str (wide ''disk full''))) = map unat (wc_str (wide ''disk full'')) \<and>
   (\<exists>fs'. Log demo_time demo_fs (wide ''logs/app.log'') ''ERROR'' (wide ''disk full'') = Inr ((), fs') \<and>
      content fs' (wide ''logs/app.log'') =
        ''[05-03-2024 14:02:31]'' @ [TAB] @ ''ERROR'' @ [TAB] @ ''disk full'' @ [NL])"
proof -
  have h: "unat (0xE9 :: wchar_t) < 256"
    "length (wc_str (wide ''disc full'')) = length (wc_str (wide ''disk full''))"
    "succeeded (Log_run demo_time demo_fs (wide ''logs/app.log'') ''ERROR'' (wide ''disk full''))"
    "\<forall>w \<in> set (wc_str (wide ''disk full'')). unat w < 256"
    by code_simp+
  have args: "unat (0xE9 :: wchar_t) = 233"
    "wc_str (wide ''logs/app.log'') = wide ''logs/app.log''"
    "content demo_fs (wide ''logs/app.log'') = []"
    "log_line (timestamp demo_time) (c_str ''ERROR'') (map narrow (wc_str (wide ''disk full''))) =
       ''[05-03-2024 14:02:31]'' @ [TAB] @ ''ERROR'' @ [TAB] @ ''disk full'' @ [NL]"
    by code_simp+
  from Log_narrows_message [of "0xE9" "wide ''disk full''" "wide ''disc full''" demo_time demo_fs
      "wide ''logs/app.log''" "''ERROR''"] h
  show ?thesis unfolding args by (simp add: list_all_iff)
qed

subsection \<open>The form of the timestamp\<close>

lemma digit_0: "digit 0 = CHR ''0''"
  by code_simp

lemma dec_1: "n < 10 \<Longrightarrow> dec n = [digit n]"
  by (subst dec.simps) simp

lemma dec_2: "10 \<le> n \<Longrightarrow> n < 100 \<Longrightarrow> dec n = [digit (n div 10), digit (n mod 10)]"
  by (subst dec.simps) (simp add: dec_1)

lemma dec_3:
  "100 \<le> n \<Longrightarrow> n < 1000 \<Longrightarrow>
   dec n = [digit (n div 100), digit (n div 10 mod 10), digit (n mod 10)]"
  by (subst dec.simps) (simp add: dec_2 div_mult2_eq [symmetric])

lemma dec_4:
  "1000 \<le> n \<Longrightarrow> n < 10000 \<Longrightarrow>
   dec n = [digit (n div 1000), digit (n div 100 mod 10), digit (n div 10 mod 10), digit (n mod 10)]"
  by (subst dec.simps) (simp add: dec_3 div_mult2_eq [symmetric])

lemma dec2_pad2: "0 \<le> i \<Longrightarrow> i \<le> 99 \<Longrightarrow> dec2 i = pad2 (nat i)"
proof (cases "i < 10")
  case True
  assume "0 \<le> i"
  with True have "nat i < 10" by simp
  with True \<open>0 \<le> i\<close> show ?thesis
    by (simp add: dec2_def dec_int_def pad2_def dec_1 digit_0)
next
  case False
  assume "i \<le> 99"
  with False have "10 \<le> nat i" "nat i < 100" by simp_all
  with False show ?thesis
    by (simp add: dec2_def dec_int_def pad2_def dec_2)
qed

lemma dec_int_pad4: "1000 \<le> i \<Longrightarrow> i \<le> 9999 \<Longrightarrow> dec_int i = pad4 (nat i)"
proof -
  assume "1000 \<le> i" "i \<le> 9999"
  then have "1000 \<le> nat i" "nat i < 10000" by simp_all
  then have "dec (nat i) = pad4 (nat i)" by (simp add: dec_4 pad4_def)
  with \<open>1000 \<le> i\<close> show ?thesis by (simp add: dec_int_def)
qed

lemma matches_padded:
  "matches stamp_pattern
     (''['' @ pad2 a @ ''-'' @ pad2 b @ ''-'' @ pad4 y @ '' '' @
      pad2 h @ '':'' @ pad2 m @ '':'' @ pad2 s @ '']'')"
  by (simp add: stamp_pattern_def pad2_def pad4_def is_digit_digit)

lemma first_field: "takeWhile (\<lambda>c. c \<noteq> TAB) (entry t level logMsg) = timestamp t"
proof -
  have "\<forall>c \<in> set (timestamp t). c \<noteq> TAB" using timestamp_control(2) [of t] by blast
  then show ?thesis by (simp add: entry_def log_line_def)
qed

text \<open>
  C4. For a local time in a year of four digits the timestamp that \<^verbatim>\<open>getCurrentDateTime\<close>
  returns is an opening bracket, the day of the month, the month and the year in two, two
  and four digits padded with zeros, a space, the hour of the 24-hour clock, the minute and
  the second in two digits each, and a closing bracket; it matches the pattern. A call of
  \<^verbatim>\<open>Log\<close> that succeeds writes it first and a tab after it: the characters that the call
  has added to the file, up to their first tab, are this timestamp.
\<close>

theorem timestamp_matches_pattern:
  assumes "calendar_time t"
  shows "getCurrentDateTime t = Some (timestamp t) \<and>
         timestamp t =
           ''['' @ pad2 (nat (sint (tm_mday t))) @ ''-'' @ pad2 (nat (sint (tm_mon t) + 1)) @ ''-'' @
           pad4 (nat (sint (tm_year t) + 1900)) @ '' '' @ pad2 (nat (sint (tm_hour t))) @ '':'' @
           pad2 (nat (sint (tm_min t))) @ '':'' @ pad2 (nat (sint (tm_sec t))) @ '']'' \<and>
         matches stamp_pattern (timestamp t) \<and>
         (succeeded (Log_run t fs path level logMsg) \<longrightarrow>
            (\<exists>fs' rest. Log t fs path level logMsg = Inr ((), fs') \<and>
               content fs' (wc_str path) =
                 content fs (wc_str path) @ timestamp t @ [TAB] @ rest \<and>
               takeWhile (\<lambda>c. c \<noteq> TAB)
                 (drop (length (content fs (wc_str path))) (content fs' (wc_str path))) =
               timestamp t))"
proof -
  from assms have
    d: "dec2 (sint (tm_mday t)) = pad2 (nat (sint (tm_mday t)))" and
    m: "dec2 (sint (tm_mon t) + 1) = pad2 (nat (sint (tm_mon t) + 1))" and
    y: "dec_int (sint (tm_year t) + 1900) = pad4 (nat (sint (tm_year t) + 1900))" and
    h: "dec2 (sint (tm_hour t)) = pad2 (nat (sint (tm_hour t)))" and
    mi: "dec2 (sint (tm_min t)) = pad2 (nat (sint (tm_min t)))" and
    s: "dec2 (sint (tm_sec t)) = pad2 (nat (sint (tm_sec t)))"
    by (simp_all add: calendar_time_def dec2_pad2 dec_int_pad4)
  have form: "timestamp t =
           ''['' @ pad2 (nat (sint (tm_mday t))) @ ''-'' @ pad2 (nat (sint (tm_mon t) + 1)) @ ''-'' @
           pad4 (nat (sint (tm_year t) + 1900)) @ '' '' @ pad2 (nat (sint (tm_hour t))) @ '':'' @
           pad2 (nat (sint (tm_min t))) @ '':'' @ pad2 (nat (sint (tm_sec t))) @ '']''"
    unfolding timestamp_eq d m y h mi s ..
  have pat: "matches stamp_pattern (timestamp t)"
    unfolding form by (rule matches_padded)
  have written: "succeeded (Log_run t fs path level logMsg) \<longrightarrow>
            (\<exists>fs' rest. Log t fs path level logMsg = Inr ((), fs') \<and>
               content fs' (wc_str path) =
                 content fs (wc_str path) @ timestamp t @ [TAB] @ rest \<and>
               takeWhile (\<lambda>c. c \<noteq> TAB)
                 (drop (length (content fs (wc_str path))) (content fs' (wc_str path))) =
               timestamp t)"
  proof
    assume ok: "succeeded (Log_run t fs path level logMsg)"
    let ?fs' = "fs\<lparr>files := (files fs)(wc_str path \<mapsto>
                        content fs (wc_str path) @ entry t level logMsg),
                  avail := avail fs - length (entry t level logMsg)\<rparr>"
    let ?rest = "c_str level @ [TAB] @ map narrow (wc_str logMsg) @ [NL]"
    from Log_run_result [OF ok] obtain ofs where
      "Log_run t fs path level logMsg = Inr (ofs, ?fs')" by blast
    then have l: "Log t fs path level logMsg = Inr ((), ?fs')" by (rule Log_of_run)
    have c: "content ?fs' (wc_str path) = content fs (wc_str path) @ entry t level logMsg"
      by (rule content_update)
    have e: "entry t level logMsg = timestamp t @ [TAB] @ ?rest"
      by (simp add: entry_def log_line_def)
    have c': "content ?fs' (wc_str path) =
        content fs (wc_str path) @ timestamp t @ [TAB] @ ?rest"
      by (rule trans [OF c]) (simp add: e)
    have "drop (length (content fs (wc_str path))) (content ?fs' (wc_str path)) =
        entry t level logMsg"
      unfolding c by simp
    then have f: "takeWhile (\<lambda>c. c \<noteq> TAB)
        (drop (length (content fs (wc_str path))) (content ?fs' (wc_str path))) = timestamp t"
      using first_field [of t level logMsg] by simp
    from l c' f show "\<exists>fs' rest. Log t fs path level logMsg = Inr ((), fs') \<and>
               content fs' (wc_str path) =
                 content fs (wc_str path) @ timestamp t @ [TAB] @ rest \<and>
               takeWhile (\<lambda>c. c \<noteq> TAB)
                 (drop (length (content fs (wc_str path))) (content fs' (wc_str path))) =
               timestamp t"
      by blast
  qed
  from getCurrentDateTime_eq [of t] form pat written show ?thesis by (intro conjI)
qed

theorem timestamp_matches_pattern_witness:
  "calendar_time demo_time \<and>
   getCurrentDateTime demo_time = Some ''[05-03-2024 14:02:31]'' \<and>
   matches stamp_pattern ''[05-03-2024 14:02:31]'' \<and>
   succeeded (Log_run demo_time demo_fs (wide ''logs/old.log'') ''ERROR'' (wide ''disk full'')) \<and>
   (\<exists>fs' rest. Log demo_time demo_fs (wide ''logs/old.log'') ''ERROR'' (wide ''disk full'') =
        Inr ((), fs') \<and>
      content fs' (wide ''logs/old.log'') =
        ''first'' @ [NL] @ ''[05-03-2024 14:02:31]'' @ [TAB] @ rest \<and>
      takeWhile (\<lambda>c. c \<noteq> TAB) (drop 6 (content fs' (wide ''logs/old.log''))) =
        ''[05-03-2024 14:02:31]'')"
proof -
  have h: "calendar_time demo_time" by code_simp
  have ok: "succeeded (Log_run demo_time demo_fs (wide ''logs/old.log'') ''ERROR'' (wide ''disk full''))"
    by code_simp
  have args: "timestamp demo_time = ''[05-03-2024 14:02:31]''"
    "wc_str (wide ''logs/old.log'') = wide ''logs/old.log''"
    "content demo_fs (wide ''logs/old.log'') = ''first'' @ [NL]"
    by code_simp+
  have len: "length (''first'' @ [NL]) = 6" by simp
  note inst = timestamp_matches_pattern [OF h, of demo_fs "wide ''logs/old.log''" "''ERROR''"
      "wide ''disk full''", unfolded args len]
  from inst have g: "getCurrentDateTime demo_time = Some ''[05-03-2024 14:02:31]''"
    and p: "matches stamp_pattern ''[05-03-2024 14:02:31]''"
    by blast+
  from inst ok have "\<exists>fs' rest. Log demo_time demo_fs (wide ''logs/old.log'') ''ERROR'' (wide ''disk full'') =
        Inr ((), fs') \<and>
      content fs' (wide ''logs/old.log'') =
        (''first'' @ [NL]) @ ''[05-03-2024 14:02:31]'' @ [TAB] @ rest \<and>
      takeWhile (\<lambda>c. c \<noteq> TAB) (drop 6 (content fs' (wide ''logs/old.log''))) =
        ''[05-03-2024 14:02:31]''"
    by blast
  then have w: "\<exists>fs' rest. Log demo_time demo_fs (wide ''logs/old.log'') ''ERROR'' (wide ''disk full'') =
        Inr ((), fs') \<and>
      content fs' (wide ''logs/old.log'') =
        ''first'' @ [NL] @ ''[05-03-2024 14:02:31]'' @ [TAB] @ rest \<and>
      takeWhile (\<lambda>c. c \<noteq> TAB) (drop 6 (content fs' (wide ''logs/old.log''))) =
        ''[05-03-2024 14:02:31]''"
    by simp
  from h g p ok w show ?thesis by (intro conjI)
qed

end
